theory Spec2Isabelle
  imports Main
begin

section \<open>The React adapter of the geocoding control\<close>

text \<open>
  The repository holds two copies of one React component, \<^verbatim>\<open>ReactGeocodingControl\<close>:
  \<^verbatim>\<open>src/react.ts\<close> (the extended variant) and \<^verbatim>\<open>src/lib/react.ts\<close> (the base variant).
  The component creates a Svelte component inside a \<^verbatim>\<open>div\<close>, forwards changed options with
  \<^verbatim>\<open>$set\<close>, subscribes callback props with \<^verbatim>\<open>$on\<close> and exposes a few methods through a ref.

  The model is a state machine over one mounted component: \<open>mount\<close> is the first commit,
  \<open>rerender\<close> a later commit with new props, \<open>unmount\<close> the last one. Every call that
  the component makes on the wrapped instance is appended to a log, so that the properties
  of the adapter are properties of the log and of the listeners the instance holds.
\<close>

subsection \<open>Values and property bags\<close>

text \<open>
  JavaScript values, as far as the component looks at them: it compares them by identity
  (\<^verbatim>\<open>Object.is\<close> on the dependency arrays), tests \<^verbatim>\<open>!== undefined\<close> and tests truthiness.
  Objects and functions are references; numbers are integers here (no \<^verbatim>\<open>NaN\<close>).
\<close>

datatype jsval =
    Undefined
  | Null
  | JBool bool
  | JNum int
  | JStr string
  | JObj nat
  | JFn nat

fun truthy :: "jsval \<Rightarrow> bool" where
  "truthy Undefined = False"
| "truthy Null = False"
| "truthy (JBool b) = b"
| "truthy (JNum n) = (n \<noteq> 0)"
| "truthy (JStr s) = (s \<noteq> [])"
| "truthy (JObj r) = True"
| "truthy (JFn r) = True"

text \<open>A props object: its own keys in insertion order, each with its value.\<close>

type_synonym props = "(string \<times> jsval) list"

text \<open>\<^verbatim>\<open>props[name]\<close>: a missing key reads as \<^verbatim>\<open>undefined\<close>.\<close>

definition get_prop :: "props \<Rightarrow> string \<Rightarrow> jsval" where
  "get_prop p k = (case map_of p k of None \<Rightarrow> Undefined | Some v \<Rightarrow> v)"

text \<open>\<^verbatim>\<open>delete options[name]\<close>.\<close>

definition delete_prop :: "string \<Rightarrow> props \<Rightarrow> props" where
  "delete_prop k p = filter (\<lambda>kv. fst kv \<noteq> k) p"

subsection \<open>The enumerated names\<close>

datatype variant = Extended | Base

definition eventNames :: "string list" where
  "eventNames =
     [''featuresListed'', ''featuresMarked'', ''optionsVisibilityChange'', ''pick'',
      ''queryChange'', ''response'', ''reverseToggle'', ''select'']"

fun propertyNames :: "variant \<Rightarrow> string list" where
  "propertyNames Extended =
     [''adjustUrlQuery'', ''apiKey'', ''bbox'', ''clearButtonTitle'', ''clearOnBlur'',
      ''collapsed'', ''country'', ''debounceSearch'', ''enableReverse'', ''errorMessage'',
      ''excludeTypes'', ''filter'', ''fuzzyMatch'', ''language'', ''limit'',
      ''mapController'', ''minLength'', ''noResultsMessage'', ''pickedResultStyle'',
      ''placeholder'', ''proximity'', ''reverseActive'', ''reverseButtonTitle'',
      ''showPlaceType'', ''showResultsWhileTyping'', ''types'', ''zoom'']"
| "propertyNames Base =
     [''apiKey'', ''bbox'', ''clearButtonTitle'', ''clearOnBlur'', ''collapsed'',
      ''country'', ''debounceSearch'', ''enableReverse'', ''errorMessage'', ''filter'',
      ''fuzzyMatch'', ''language'', ''limit'', ''minLength'', ''noResultsMessage'',
      ''placeholder'', ''proximity'', ''reverseButtonTitle'', ''showFullGeometry'',
      ''showPlaceType'', ''showResultsWhileTyping'', ''trackProximity'', ''types'',
      ''zoom'', ''mapController'']"

text \<open>
  \<^verbatim>\<open>toUpperCase\<close> on ASCII text: the letters a to z move to A to Z, every other
  character stays.
\<close>

definition upper_char :: "char \<Rightarrow> char" where
  "upper_char c =
     (let n = (of_char c :: nat) in if 97 \<le> n \<and> n \<le> 122 then char_of (n - 32) else c)"

definition toUpperCase :: "string \<Rightarrow> string" where
  "toUpperCase s = map upper_char s"

text \<open>
  \<^verbatim>\<open>"on" + name[0].toUpperCase() + name.slice(1)\<close>. On the empty name the source raises
  (\<^verbatim>\<open>name[0]\<close> is \<^verbatim>\<open>undefined\<close>); the type parameter excludes it and the function has
  no equation for it.
\<close>

fun getEventFnName :: "string \<Rightarrow> string" where
  "getEventFnName (c # cs) = ''on'' @ toUpperCase [c] @ cs"

text \<open>
  \<^verbatim>\<open>const options = { ...props }\<close> followed by the loop that deletes the callback key of
  every event name.
\<close>

definition options :: "props \<Rightarrow> props" where
  "options p = fold (\<lambda>eventName opts. delete_prop (getEventFnName eventName) opts) eventNames p"

subsection \<open>The wrapped instance\<close>

text \<open>
  Modelled from the spec: the wrapped component (\<^verbatim>\<open>GeocodingControl.svelte\<close> and the
  methods \<^verbatim>\<open>$set\<close>, \<^verbatim>\<open>$on\<close>, \<^verbatim>\<open>$destroy\<close> it inherits) is not among the sources. The
  spec describes it as an opaque collaborator with a constructor taking a mount node and
  a property bag, an update method, a subscription mechanism for named events that hands
  back an unsubscribe function, a destroy method and the imperative methods. The instance
  is therefore the list of its live listeners, a counter naming each subscription, and a
  flag; the calls it receives go to the log.
\<close>

datatype call =
    New nat props
  | Set string jsval
  | On string "jsval option"
  | Off nat
  | Destroy
  | SetQuery string bool
  | ClearMap
  | ClearList
  | Focus
  | Blur

record control =
  target :: nat
  listeners :: "(nat \<times> string \<times> jsval) list"
  fresh :: nat
  destroyed :: bool

text \<open>\<^verbatim>\<open>new GeocodingControl({ target, props })\<close>.\<close>

definition new_control :: "nat \<Rightarrow> control" where
  "new_control node = \<lparr>target = node, listeners = [], fresh = 0, destroyed = False\<rparr>"

text \<open>
  \<^verbatim>\<open>$on(eventName, callback)\<close>: a callback is the trampoline around the handler \<open>h\<close>; it
  is registered under a fresh number, which is what the returned unsubscribe function
  remembers. Without a callback nothing is registered and nothing is handed back.
\<close>

definition on_event :: "string \<Rightarrow> jsval option \<Rightarrow> control \<Rightarrow> control \<times> nat option" where
  "on_event eventName cb c =
     (case cb of
        None \<Rightarrow> (c, None)
      | Some h \<Rightarrow>
          (c\<lparr>listeners := listeners c @ [(fresh c, eventName, h)], fresh := Suc (fresh c)\<rparr>,
           Some (fresh c)))"

text \<open>Calling the unsubscribe function of subscription \<open>i\<close>.\<close>

definition off_event :: "nat \<Rightarrow> control \<Rightarrow> control" where
  "off_event i c = c\<lparr>listeners := filter (\<lambda>l. fst l \<noteq> i) (listeners c)\<rparr>"

subsection \<open>The component\<close>

datatype error = HostNodeMissing

text \<open>
  The state of one component: the two refs, the props of the last commit (React keeps
  them as the dependency arrays of the effects), the cleanup functions React holds (the
  one of the mount effect, and per event name the subscription to end), and the log.
\<close>

record adapter =
  divRef :: "nat option"
  controlRef :: "control option"
  rendered :: props
  destroy_cleanup :: bool
  event_cleanups :: "(string \<times> nat) list"
  log :: "call list"

text \<open>
  The first render: React has attached the host node, if there is one, to \<^verbatim>\<open>divRef\<close>;
  no effect has run yet.
\<close>

definition initial :: "nat option \<Rightarrow> props \<Rightarrow> adapter" where
  "initial node p =
     \<lparr>divRef = node, controlRef = None, rendered = p, destroy_cleanup = False,
      event_cleanups = [], log = []\<rparr>"

text \<open>
  The mount effect (dependencies \<^verbatim>\<open>[]\<close>): throws without a host node, otherwise
  constructs the instance with the stripped options, stores it in \<^verbatim>\<open>controlRef\<close> and
  returns the cleanup that destroys it.
\<close>

definition mount_effect :: "props \<Rightarrow> adapter \<Rightarrow> error + adapter" where
  "mount_effect p s =
     (case divRef s of
        None \<Rightarrow> Inl HostNodeMissing
      | Some node \<Rightarrow>
          Inr (s\<lparr>controlRef := Some (new_control node),
                 destroy_cleanup := True,
                 log := log s @ [New node (options p)]\<rparr>))"

text \<open>The effect of one option name (dependencies \<^verbatim>\<open>[props[propName]]\<close>).\<close>

definition prop_effect :: "props \<Rightarrow> string \<Rightarrow> adapter \<Rightarrow> adapter" where
  "prop_effect p propName s =
     (case controlRef s of
        None \<Rightarrow> s
      | Some c \<Rightarrow>
          if get_prop p propName \<noteq> Undefined
          then s\<lparr>log := log s @ [Set propName (get_prop p propName)]\<rparr>
          else s)"

text \<open>
  The effect of one event name (dependencies \<^verbatim>\<open>[eventHandlerFn]\<close>). In the extended
  variant the effect is \<^verbatim>\<open>eventHandlerFn && controlRef.current?.$on(...)\<close> and its value,
  the unsubscribe function, is the cleanup; a falsy handler is \<^verbatim>\<open>undefined\<close> by the type
  of the props, which is no cleanup. In the base variant the effect calls \<^verbatim>\<open>$on\<close> with
  the trampoline or with \<^verbatim>\<open>undefined\<close> and returns nothing.
\<close>

fun event_effect :: "variant \<Rightarrow> props \<Rightarrow> string \<Rightarrow> adapter \<Rightarrow> adapter" where
  "event_effect Extended p eventName s =
     (let eventHandlerFn = get_prop p (getEventFnName eventName) in
      if truthy eventHandlerFn then
        (case controlRef s of
           None \<Rightarrow> s
         | Some c \<Rightarrow>
             (case on_event eventName (Some eventHandlerFn) c of
                (c', unsub) \<Rightarrow>
                  s\<lparr>controlRef := Some c',
                    event_cleanups :=
                      (case unsub of
                         None \<Rightarrow> event_cleanups s
                       | Some i \<Rightarrow> event_cleanups s @ [(eventName, i)]),
                    log := log s @ [On eventName (Some eventHandlerFn)]\<rparr>))
      else s)"
| "event_effect Base p eventName s =
     (let eventHandlerFn = get_prop p (getEventFnName eventName) in
      case controlRef s of
        None \<Rightarrow> s
      | Some c \<Rightarrow>
          (let cb = (if \<not> truthy eventHandlerFn then None else Some eventHandlerFn) in
           s\<lparr>controlRef := Some (fst (on_event eventName cb c)),
             log := log s @ [On eventName cb]\<rparr>))"

declare event_effect.simps [simp del]

text \<open>
  React runs the cleanup an effect returned before it runs the effect again, and at
  unmount; a cleanup runs once.
\<close>

definition run_cleanup :: "string \<Rightarrow> adapter \<Rightarrow> adapter" where
  "run_cleanup eventName s =
     (case map_of (event_cleanups s) eventName of
        None \<Rightarrow> s
      | Some i \<Rightarrow>
          s\<lparr>controlRef := map_option (off_event i) (controlRef s),
            event_cleanups := filter (\<lambda>e. fst e \<noteq> eventName) (event_cleanups s),
            log := log s @ [Off i]\<rparr>)"

text \<open>The cleanup of the mount effect: \<^verbatim>\<open>control.$destroy()\<close>.\<close>

definition run_destroy :: "adapter \<Rightarrow> adapter" where
  "run_destroy s =
     (if destroy_cleanup s
      then s\<lparr>controlRef := map_option (\<lambda>c. c\<lparr>destroyed := True\<rparr>) (controlRef s),
             destroy_cleanup := False,
             log := log s @ [Destroy]\<rparr>
      else s)"

text \<open>
  The first commit: the effects run in the order of their hooks, the mount effect, one
  effect per option name, one per event name. An effect that throws ends the commit.
\<close>

definition mount :: "variant \<Rightarrow> nat option \<Rightarrow> props \<Rightarrow> error + adapter" where
  "mount v node p =
     (case mount_effect p (initial node p) of
        Inl e \<Rightarrow> Inl e
      | Inr s \<Rightarrow>
          Inr (fold (event_effect v p) eventNames (fold (prop_effect p) (propertyNames v) s)))"

text \<open>
  A later commit with props \<open>p\<close>: the effects whose dependency changed are the ones
  that run; React first runs the cleanups of all of them, then the effects, each in hook
  order. The mount effect has no dependency and does not run again.
\<close>

definition changed :: "props \<Rightarrow> props \<Rightarrow> string \<Rightarrow> bool" where
  "changed old p k = (get_prop p k \<noteq> get_prop old k)"

definition rerender :: "variant \<Rightarrow> adapter \<Rightarrow> props \<Rightarrow> adapter" where
  "rerender v s p =
     (let propNames = filter (changed (rendered s) p) (propertyNames v);
          evNames = filter (\<lambda>e. changed (rendered s) p (getEventFnName e)) eventNames;
          s1 = fold run_cleanup evNames s;
          s2 = fold (prop_effect p) propNames s1;
          s3 = fold (event_effect v p) evNames s2
      in s3\<lparr>rendered := p\<rparr>)"

text \<open>Unmount: every cleanup React still holds runs, in hook order.\<close>

definition unmount :: "adapter \<Rightarrow> adapter" where
  "unmount s = fold run_cleanup eventNames (run_destroy s)"

subsection \<open>The imperative handle\<close>

text \<open>
  The object \<^verbatim>\<open>useImperativeHandle\<close> builds. A request is a call of one of its methods;
  \<^verbatim>\<open>setQuery\<close> may come without its second argument.
\<close>

datatype request =
    CallSetQuery string "bool option"
  | CallClearMap
  | CallClearList
  | CallFocus
  | CallBlur

fun request_name :: "request \<Rightarrow> string" where
  "request_name (CallSetQuery value submit) = ''setQuery''"
| "request_name CallClearMap = ''clearMap''"
| "request_name CallClearList = ''clearList''"
| "request_name CallFocus = ''focus''"
| "request_name CallBlur = ''blur''"

fun handle_keys :: "variant \<Rightarrow> string list" where
  "handle_keys Extended = [''setQuery'', ''clearMap'', ''clearList'', ''focus'', ''blur'']"
| "handle_keys Base = [''setQuery'', ''focus'', ''blur'']"

text \<open>The method of the wrapped instance a request is passed on to, with its arguments.\<close>

fun delegate :: "request \<Rightarrow> call" where
  "delegate (CallSetQuery value submit) =
     SetQuery value (case submit of None \<Rightarrow> True | Some b \<Rightarrow> b)"
| "delegate CallClearMap = ClearMap"
| "delegate CallClearList = ClearList"
| "delegate CallFocus = Focus"
| "delegate CallBlur = Blur"

fun call_name :: "call \<Rightarrow> string" where
  "call_name (New node p) = ''constructor''"
| "call_name (Set k x) = ''$set''"
| "call_name (On e cb) = ''$on''"
| "call_name (Off i) = ''unsubscribe''"
| "call_name Destroy = ''$destroy''"
| "call_name (SetQuery value submit) = ''setQuery''"
| "call_name ClearMap = ''clearMap''"
| "call_name ClearList = ''clearList''"
| "call_name Focus = ''focus''"
| "call_name Blur = ''blur''"

text \<open>
  \<^verbatim>\<open>controlRef.current?.method(...)\<close>: nothing happens while the ref is empty. A request
  for a method the handle of the variant does not have gives \<open>None\<close>.
\<close>

definition invoke :: "variant \<Rightarrow> adapter \<Rightarrow> request \<Rightarrow> adapter option" where
  "invoke v s r =
     (if request_name r \<in> set (handle_keys v)
      then Some (case controlRef s of
                   None \<Rightarrow> s
                 | Some c \<Rightarrow> s\<lparr>log := log s @ [delegate r]\<rparr>)
      else None)"

subsection \<open>Reading the log\<close>

text \<open>The calls that subscribe and unsubscribe.\<close>

definition sub_call :: "call \<Rightarrow> bool" where
  "sub_call c = (case c of On e cb \<Rightarrow> True | Off i \<Rightarrow> True | _ \<Rightarrow> False)"

text \<open>What the log shows: how often the instance was constructed and destroyed.\<close>

definition constructions :: "call list \<Rightarrow> nat" where
  "constructions l = length (filter (\<lambda>c. case c of New node p \<Rightarrow> True | _ \<Rightarrow> False) l)"

definition destructions :: "call list \<Rightarrow> nat" where
  "destructions l = length (filter (\<lambda>c. c = Destroy) l)"

text \<open>The \<^verbatim>\<open>$set\<close> calls for one option name, in order.\<close>

definition updates_of :: "string \<Rightarrow> call list \<Rightarrow> call list" where
  "updates_of k l = filter (\<lambda>c. case c of Set k' x \<Rightarrow> k' = k | _ \<Rightarrow> False) l"

text \<open>
  The \<^verbatim>\<open>$set\<close> calls of a later commit: one for every option name whose value changed
  and is not \<^verbatim>\<open>undefined\<close>, once the instance exists.
\<close>

definition forwarded :: "variant \<Rightarrow> adapter \<Rightarrow> props \<Rightarrow> call list" where
  "forwarded v s p =
     (if controlRef s = None then []
      else map (\<lambda>n. Set n (get_prop p n))
             (filter (\<lambda>n. get_prop p n \<noteq> Undefined)
                (filter (changed (rendered s) p) (propertyNames v))))"

text \<open>The property bags the constructor was called with.\<close>

definition constructor_props :: "call list \<Rightarrow> props list" where
  "constructor_props l = concat (map (\<lambda>c. case c of New node q \<Rightarrow> [q] | _ \<Rightarrow> []) l)"

text \<open>The listeners the instance holds for one event name.\<close>

definition subscriptions :: "string \<Rightarrow> adapter \<Rightarrow> (nat \<times> string \<times> jsval) list" where
  "subscriptions eventName s =
     (case controlRef s of
        None \<Rightarrow> []
      | Some c \<Rightarrow> filter (\<lambda>l. fst (snd l) = eventName) (listeners c))"

text \<open>A mounted component after a sequence of later commits.\<close>

definition renders :: "variant \<Rightarrow> nat option \<Rightarrow> props \<Rightarrow> props list \<Rightarrow> error + adapter" where
  "renders v node p ps =
     (case mount v node p of
        Inl e \<Rightarrow> Inl e
      | Inr s \<Rightarrow> Inr (foldl (rerender v) s ps))"

text \<open>The calls that end a subscription, and those that ask for one.\<close>

definition off_call :: "call \<Rightarrow> bool" where
  "off_call c = (case c of Off i \<Rightarrow> True | _ \<Rightarrow> False)"

definition on_call :: "call \<Rightarrow> bool" where
  "on_call c = (case c of On e cb \<Rightarrow> True | _ \<Rightarrow> False)"

text \<open>
  The state of the subscriptions, for the extended variant. The numbers of the listeners
  are distinct and below the counter.
\<close>

definition ids_fresh :: "control \<Rightarrow> bool" where
  "ids_fresh c = (distinct (map fst (listeners c)) \<and> (\<forall>l \<in> set (listeners c). fst l < fresh c))"

text \<open>
  \<open>wired w s\<close>: for every event name \<open>e\<close>, when the handler \<open>w e\<close> is truthy the instance
  holds exactly one listener for \<open>e\<close>, the trampoline around \<open>w e\<close>, and React holds the
  cleanup that ends it; otherwise there is neither a listener nor a cleanup.
\<close>

definition wired :: "(string \<Rightarrow> jsval) \<Rightarrow> adapter \<Rightarrow> bool" where
  "wired w s =
     (\<exists>c. controlRef s = Some c \<and> ids_fresh c \<and>
        (\<forall>e. if truthy (w e)
             then \<exists>i. map_of (event_cleanups s) e = Some i \<and>
                      filter (\<lambda>l. fst (snd l) = e) (listeners c) = [(i, e, w e)]
             else map_of (event_cleanups s) e = None \<and>
                  filter (\<lambda>l. fst (snd l) = e) (listeners c) = []))"

text \<open>The handlers the props give to the enumerated event names.\<close>

definition wiring :: "props \<Rightarrow> string \<Rightarrow> jsval" where
  "wiring p e = (if e \<in> set eventNames then get_prop p (getEventFnName e) else Undefined)"

section \<open>Properties\<close>

subsection \<open>Auxiliary facts\<close>

lemma callback_names:
  "map getEventFnName eventNames =
     [''onFeaturesListed'', ''onFeaturesMarked'', ''onOptionsVisibilityChange'', ''onPick'',
      ''onQueryChange'', ''onResponse'', ''onReverseToggle'', ''onSelect'']"
  by code_simp

lemma distinct_propertyNames: "distinct (propertyNames v)"
  by (cases v) simp_all

lemma callback_not_property: "e \<in> set eventNames \<Longrightarrow> getEventFnName e \<notin> set (propertyNames v)"
proof -
  assume "e \<in> set eventNames"
  then have "getEventFnName e \<in> set (map getEventFnName eventNames)" by simp
  then show ?thesis unfolding callback_names by (cases v) auto
qed

lemma options_filter:
  "options p = filter (\<lambda>kv. fst kv \<notin> set (map getEventFnName eventNames)) p"
proof -
  have "fold (\<lambda>e opts. delete_prop (getEventFnName e) opts) es q =
        filter (\<lambda>kv. fst kv \<notin> set (map getEventFnName es)) q" for es q
    by (induction es arbitrary: q) (auto simp: delete_prop_def intro: filter_cong)
  then show ?thesis by (simp add: options_def)
qed

lemma prop_effect_fields [simp]:
  "divRef (prop_effect p n s) = divRef s"
  "controlRef (prop_effect p n s) = controlRef s"
  "rendered (prop_effect p n s) = rendered s"
  "destroy_cleanup (prop_effect p n s) = destroy_cleanup s"
  "event_cleanups (prop_effect p n s) = event_cleanups s"
  by (simp_all add: prop_effect_def split: option.splits)

lemma fold_prop_effect:
  "fold (prop_effect p) ns s =
     s\<lparr>log := log s @ (if controlRef s = None then []
                       else map (\<lambda>n. Set n (get_prop p n))
                              (filter (\<lambda>n. get_prop p n \<noteq> Undefined) ns))\<rparr>"
proof (induction ns arbitrary: s)
  case Nil
  then show ?case by simp
next
  case (Cons n ns)
  show ?case
    by (simp add: Cons.IH) (simp add: prop_effect_def split: option.splits)
qed

lemma event_effect_fields [simp]:
  "divRef (event_effect v p e s) = divRef s"
  "rendered (event_effect v p e s) = rendered s"
  "destroy_cleanup (event_effect v p e s) = destroy_cleanup s"
  by (cases v; simp add: event_effect.simps Let_def split: option.splits prod.splits)+

lemma event_effect_controlRef [simp]:
  "(controlRef (event_effect v p e s) = None) = (controlRef s = None)"
  by (cases v; simp add: event_effect.simps Let_def split: option.splits prod.splits)

lemma event_effect_log:
  "\<exists>d. log (event_effect v p e s) = log s @ d \<and> list_all sub_call d"
  by (cases v; simp add: event_effect.simps Let_def sub_call_def split: option.splits prod.splits)

lemma run_cleanup_fields [simp]:
  "divRef (run_cleanup e s) = divRef s"
  "rendered (run_cleanup e s) = rendered s"
  "destroy_cleanup (run_cleanup e s) = destroy_cleanup s"
  by (simp_all add: run_cleanup_def split: option.splits)

lemma run_cleanup_controlRef [simp]:
  "(controlRef (run_cleanup e s) = None) = (controlRef s = None)"
  by (simp add: run_cleanup_def split: option.splits)

lemma run_cleanup_log:
  "\<exists>d. log (run_cleanup e s) = log s @ d \<and> list_all sub_call d"
  by (simp add: run_cleanup_def sub_call_def split: option.splits)

lemma fold_event_effect_fields [simp]:
  "divRef (fold (event_effect v p) es s) = divRef s"
  "rendered (fold (event_effect v p) es s) = rendered s"
  "destroy_cleanup (fold (event_effect v p) es s) = destroy_cleanup s"
  "(controlRef (fold (event_effect v p) es s) = None) = (controlRef s = None)"
  by (induction es arbitrary: s) simp_all

lemma fold_run_cleanup_fields [simp]:
  "divRef (fold run_cleanup es s) = divRef s"
  "rendered (fold run_cleanup es s) = rendered s"
  "destroy_cleanup (fold run_cleanup es s) = destroy_cleanup s"
  "(controlRef (fold run_cleanup es s) = None) = (controlRef s = None)"
  by (induction es arbitrary: s) simp_all

lemma fold_log_appends:
  assumes "\<And>x s. \<exists>d. log (f x s) = log s @ d \<and> list_all P d"
  shows "\<exists>d. log (fold f xs s) = log s @ d \<and> list_all P d"
proof (induction xs arbitrary: s)
  case Nil
  then show ?case by simp
next
  case (Cons x xs)
  obtain d1 where d1: "log (f x s) = log s @ d1" "list_all P d1"
    using assms by blast
  obtain d2 where d2: "log (fold f xs (f x s)) = log (f x s) @ d2" "list_all P d2"
    using Cons.IH by blast
  have "log (fold f (x # xs) s) = log s @ (d1 @ d2)"
    using d1 d2 by simp
  moreover have "list_all P (d1 @ d2)" using d1 d2 by simp
  ultimately show ?case by blast
qed

lemma fold_event_effect_log:
  "\<exists>d. log (fold (event_effect v p) es s) = log s @ d \<and> list_all sub_call d"
  by (rule fold_log_appends) (rule event_effect_log)

lemma fold_run_cleanup_log:
  "\<exists>d. log (fold run_cleanup es s) = log s @ d \<and> list_all sub_call d"
  by (rule fold_log_appends) (rule run_cleanup_log)

lemma event_effect_ons:
  "\<exists>d. log (event_effect v p e s) = log s @ d \<and> list_all on_call d"
  by (cases v; simp add: event_effect.simps Let_def on_call_def split: option.splits prod.splits)

lemma run_cleanup_offs:
  "\<exists>d. log (run_cleanup e s) = log s @ d \<and> list_all off_call d"
  by (simp add: run_cleanup_def off_call_def split: option.splits)

lemma rerender_log:
  "\<exists>offs ons. log (rerender v s p) = log s @ offs @ forwarded v s p @ ons
      \<and> list_all sub_call offs \<and> list_all sub_call ons"
proof -
  define es where "es = filter (\<lambda>e. changed (rendered s) p (getEventFnName e)) eventNames"
  define ns where "ns = filter (changed (rendered s) p) (propertyNames v)"
  define s1 where "s1 = fold run_cleanup es s"
  define s2 where "s2 = fold (prop_effect p) ns s1"
  obtain offs where offs: "log s1 = log s @ offs" "list_all sub_call offs"
    unfolding s1_def using fold_run_cleanup_log by blast
  have c1: "(controlRef s1 = None) = (controlRef s = None)"
    by (simp add: s1_def)
  have l2: "log s2 = log s1 @ forwarded v s p"
    unfolding s2_def fold_prop_effect forwarded_def ns_def using c1 by simp
  obtain ons where ons: "log (fold (event_effect v p) es s2) = log s2 @ ons"
      "list_all sub_call ons"
    using fold_event_effect_log by blast
  have "rerender v s p = (fold (event_effect v p) es s2)\<lparr>rendered := p\<rparr>"
    by (simp add: rerender_def es_def ns_def s1_def s2_def Let_def)
  then have "log (rerender v s p) = log s @ offs @ forwarded v s p @ ons"
    using offs ons l2 by simp
  then show ?thesis using offs ons by blast
qed

lemma rerender_fields [simp]:
  "divRef (rerender v s p) = divRef s"
  "rendered (rerender v s p) = p"
  "destroy_cleanup (rerender v s p) = destroy_cleanup s"
  "(controlRef (rerender v s p) = None) = (controlRef s = None)"
  by (simp_all add: rerender_def Let_def fold_prop_effect)

lemma foldl_rerender_fields [simp]:
  "divRef (foldl (rerender v) s ps) = divRef s"
  "destroy_cleanup (foldl (rerender v) s ps) = destroy_cleanup s"
  "(controlRef (foldl (rerender v) s ps) = None) = (controlRef s = None)"
  by (induction ps arbitrary: s) simp_all

lemma mount_Inr:
  "mount v node p = Inr s \<Longrightarrow>
     \<exists>n. node = Some n \<and>
       s = fold (event_effect v p) eventNames
             (fold (prop_effect p) (propertyNames v)
                ((initial node p)\<lparr>controlRef := Some (new_control n), destroy_cleanup := True,
                   log := [New n (options p)]\<rparr>))"
  by (auto simp: mount_def mount_effect_def initial_def split: option.splits)

lemma mount_fields:
  assumes "mount v node p = Inr s"
  shows "controlRef s \<noteq> None" "destroy_cleanup s" "rendered s = p" "divRef s = node"
proof -
  obtain n where n: "node = Some n"
    "s = fold (event_effect v p) eventNames
             (fold (prop_effect p) (propertyNames v)
                ((initial node p)\<lparr>controlRef := Some (new_control n), destroy_cleanup := True,
                   log := [New n (options p)]\<rparr>))"
    using mount_Inr [OF assms] by blast
  have "(controlRef s = None) = (Some (new_control n) = None)"
    unfolding n(2) by (simp add: fold_prop_effect)
  then show "controlRef s \<noteq> None" by simp
  show "destroy_cleanup s" "rendered s = p" "divRef s = node"
    unfolding n(2) by (simp_all add: fold_prop_effect initial_def)
qed

lemma mount_log:
  assumes "mount v node p = Inr s"
  shows "\<exists>n ons. node = Some n \<and> list_all sub_call ons \<and>
     log s = New n (options p) #
        map (\<lambda>k. Set k (get_prop p k))
          (filter (\<lambda>k. get_prop p k \<noteq> Undefined) (propertyNames v)) @ ons"
proof -
  obtain n where n: "node = Some n"
    "s = fold (event_effect v p) eventNames
             (fold (prop_effect p) (propertyNames v)
                ((initial node p)\<lparr>controlRef := Some (new_control n), destroy_cleanup := True,
                   log := [New n (options p)]\<rparr>))"
    using mount_Inr [OF assms] by blast
  obtain ons where "log s = log (fold (prop_effect p) (propertyNames v)
                ((initial node p)\<lparr>controlRef := Some (new_control n), destroy_cleanup := True,
                   log := [New n (options p)]\<rparr>)) @ ons" "list_all sub_call ons"
    unfolding n(2) using fold_event_effect_log by blast
  then show ?thesis using n(1) by (simp add: fold_prop_effect)
qed

lemma constructions_append [simp]:
  "constructions (a @ b) = constructions a + constructions b"
  by (simp add: constructions_def)

lemma destructions_append [simp]:
  "destructions (a @ b) = destructions a + destructions b"
  by (simp add: destructions_def)

lemma updates_of_append [simp]:
  "updates_of k (a @ b) = updates_of k a @ updates_of k b"
  by (simp add: updates_of_def)

lemma constructor_props_append [simp]:
  "constructor_props (a @ b) = constructor_props a @ constructor_props b"
  by (simp add: constructor_props_def)

lemma observed_Nil [simp]:
  "constructions [] = 0" "destructions [] = 0" "updates_of k [] = []"
  "constructor_props [] = []"
  by (simp_all add: constructions_def destructions_def updates_of_def constructor_props_def)

lemma observed_New [simp]:
  "constructions (New n q # l) = Suc (constructions l)"
  "destructions (New n q # l) = destructions l"
  "updates_of k (New n q # l) = updates_of k l"
  "constructor_props (New n q # l) = q # constructor_props l"
  by (simp_all add: constructions_def destructions_def updates_of_def constructor_props_def)

lemma sub_calls_unobserved:
  assumes "list_all sub_call d"
  shows "constructions d = 0" "destructions d = 0" "updates_of k d = []"
    "constructor_props d = []"
  using assms
  by (induction d)
     (auto simp: constructions_def destructions_def updates_of_def constructor_props_def
        sub_call_def split: call.splits)

lemma sets_unobserved:
  "constructions (map (\<lambda>n. Set n (f n)) ns) = 0"
  "destructions (map (\<lambda>n. Set n (f n)) ns) = 0"
  "constructor_props (map (\<lambda>n. Set n (f n)) ns) = []"
  by (induction ns) (auto simp: constructions_def destructions_def constructor_props_def)

lemma updates_of_sets:
  "updates_of k (map (\<lambda>n. Set n (f n)) ns) = map (\<lambda>n. Set n (f n)) (filter (\<lambda>n. n = k) ns)"
  by (induction ns) (auto simp: updates_of_def)

lemma filter_eq_distinct:
  "distinct xs \<Longrightarrow> filter (\<lambda>x. x = k) xs = (if k \<in> set xs then [k] else [])"
  by (induction xs) auto

lemma forwarded_unobserved:
  "constructions (forwarded v s p) = 0" "destructions (forwarded v s p) = 0"
  "constructor_props (forwarded v s p) = []"
  by (simp_all add: forwarded_def sets_unobserved)

lemma rerender_counts:
  "constructions (log (rerender v s p)) = constructions (log s)"
  "destructions (log (rerender v s p)) = destructions (log s)"
proof -
  obtain offs ons where l: "log (rerender v s p) = log s @ offs @ forwarded v s p @ ons"
      "list_all sub_call offs" "list_all sub_call ons"
    using rerender_log by blast
  show "constructions (log (rerender v s p)) = constructions (log s)"
    using l by (simp add: sub_calls_unobserved forwarded_unobserved)
  show "destructions (log (rerender v s p)) = destructions (log s)"
    using l by (simp add: sub_calls_unobserved forwarded_unobserved)
qed

lemma foldl_rerender_counts:
  "constructions (log (foldl (rerender v) s ps)) = constructions (log s)"
  "destructions (log (foldl (rerender v) s ps)) = destructions (log s)"
  by (induction ps arbitrary: s) (simp_all add: rerender_counts)

lemma mount_counts:
  assumes "mount v node p = Inr s"
  shows "constructions (log s) = 1" "destructions (log s) = 0"
proof -
  obtain n ons where l: "list_all sub_call ons"
     "log s = New n (options p) #
        map (\<lambda>k. Set k (get_prop p k))
          (filter (\<lambda>k. get_prop p k \<noteq> Undefined) (propertyNames v)) @ ons"
    using mount_log [OF assms] by blast
  show "constructions (log s) = 1"
    using l by (simp add: sub_calls_unobserved sets_unobserved)
  show "destructions (log s) = 0"
    using l by (simp add: sub_calls_unobserved sets_unobserved)
qed

lemma observed_Destroy [simp]:
  "constructions (Destroy # l) = constructions l"
  "destructions (Destroy # l) = Suc (destructions l)"
  "updates_of k (Destroy # l) = updates_of k l"
  "constructor_props (Destroy # l) = constructor_props l"
  by (simp_all add: constructions_def destructions_def updates_of_def constructor_props_def)

lemma run_destroy_log:
  "log (run_destroy s) = log s @ (if destroy_cleanup s then [Destroy] else [])"
  by (simp add: run_destroy_def)

lemma unmount_counts:
  "constructions (log (unmount s)) = constructions (log s)"
  "destructions (log (unmount s)) = destructions (log s) + (if destroy_cleanup s then 1 else 0)"
proof -
  obtain d where d: "log (unmount s) = log (run_destroy s) @ d" "list_all sub_call d"
    unfolding unmount_def using fold_run_cleanup_log by blast
  show "constructions (log (unmount s)) = constructions (log s)"
    using d by (simp add: sub_calls_unobserved run_destroy_log)
  show "destructions (log (unmount s)) = destructions (log s) + (if destroy_cleanup s then 1 else 0)"
    using d by (simp add: sub_calls_unobserved run_destroy_log)
qed

lemma constructions_take: "constructions (take k l) \<le> constructions l"
proof -
  have "constructions l = constructions (take k l @ drop k l)" by simp
  then show ?thesis unfolding constructions_append by linarith
qed

lemma mount_Some: "\<exists>s. mount v (Some n) p = Inr s"
  by (simp add: mount_def mount_effect_def initial_def)

lemma renders_Inr:
  "renders v node p ps = Inr s \<Longrightarrow>
     \<exists>s0. mount v node p = Inr s0 \<and> s = foldl (rerender v) s0 ps"
  by (auto simp: renders_def split: sum.splits)

lemma renders_fields:
  assumes "renders v node p ps = Inr s"
  shows "controlRef s \<noteq> None" "destroy_cleanup s"
proof -
  obtain s0 where s0: "mount v node p = Inr s0" "s = foldl (rerender v) s0 ps"
    using renders_Inr [OF assms] by blast
  show "controlRef s \<noteq> None" using mount_fields(1) [OF s0(1)] s0(2) by simp
  show "destroy_cleanup s" using mount_fields(2) [OF s0(1)] s0(2) by simp
qed

lemma mount_constructor_props:
  assumes "mount v node p = Inr s"
  shows "constructor_props (log s) = [options p]"
proof -
  obtain n ons where l: "list_all sub_call ons"
     "log s = New n (options p) #
        map (\<lambda>k. Set k (get_prop p k))
          (filter (\<lambda>k. get_prop p k \<noteq> Undefined) (propertyNames v)) @ ons"
    using mount_log [OF assms] by blast
  show ?thesis using l by (simp add: sub_calls_unobserved sets_unobserved)
qed

lemma property_not_callback:
  "name \<in> set (propertyNames v) \<Longrightarrow> name \<notin> set (map getEventFnName eventNames)"
  using callback_not_property by auto

lemma map_of_filter_keys:
  "map_of (filter (\<lambda>kv. fst kv \<notin> S) p) k = (if k \<in> S then None else map_of p k)"
  by (induction p) auto

lemma get_prop_options:
  "get_prop (options p) k =
     (if k \<in> set (map getEventFnName eventNames) then Undefined else get_prop p k)"
  by (simp add: get_prop_def options_filter map_of_filter_keys)

lemma updates_of_forwarded:
  "updates_of name (forwarded v s p) =
     (if controlRef s \<noteq> None \<and> name \<in> set (propertyNames v)
         \<and> changed (rendered s) p name \<and> get_prop p name \<noteq> Undefined
      then [Set name (get_prop p name)] else [])"
proof -
  have "filter (\<lambda>n. n = name)
          (filter (\<lambda>n. get_prop p n \<noteq> Undefined)
             (filter (changed (rendered s) p) (propertyNames v))) =
        (if name \<in> set (propertyNames v) \<and> changed (rendered s) p name
            \<and> get_prop p name \<noteq> Undefined
         then [name] else [])"
    using distinct_propertyNames [of v]
    by (subst filter_eq_distinct) (auto simp: distinct_filter)
  then show ?thesis
    by (simp add: forwarded_def updates_of_sets)
qed

subsection \<open>Forwarding of options\<close>

text \<open>
  Claim C1. For every enumerated option name: when a mounted component is rendered again
  and, against the props of the commit before, only the value of that option differs and
  the new value is not \<^verbatim>\<open>undefined\<close>, the commit makes exactly one call on the wrapped
  instance, \<^verbatim>\<open>$set\<close> with the one-key payload of that name and the new value; no other
  option is forwarded.
\<close>

theorem single_option_change_forwarded_once:
  assumes r: "renders v node p0 ps = Inr s"
    and name: "name \<in> set (propertyNames v)"
    and same: "\<forall>k. k \<noteq> name \<longrightarrow> get_prop p k = get_prop (rendered s) k"
    and diff: "get_prop p name \<noteq> get_prop (rendered s) name"
    and val: "get_prop p name \<noteq> Undefined"
  shows "log (rerender v s p) = log s @ [Set name (get_prop p name)]"
proof -
  have c: "controlRef s \<noteq> None"
    using renders_fields(1) [OF r] .
  have ch: "changed (rendered s) p k = (k = name)" for k
    using same diff by (auto simp: changed_def)
  have "getEventFnName e \<noteq> name" if "e \<in> set eventNames" for e
    using callback_not_property [OF that, of v] name by auto
  then have ev: "filter (\<lambda>e. changed (rendered s) p (getEventFnName e)) eventNames = []"
    by (simp add: ch filter_empty_conv)
  have "changed (rendered s) p = (\<lambda>k. k = name)"
    by (rule ext) (rule ch)
  then have pr: "filter (changed (rendered s) p) (propertyNames v) = [name]"
    using name distinct_propertyNames [of v] by (simp add: filter_eq_distinct)
  show ?thesis
    using c val by (simp add: rerender_def Let_def ev pr fold_prop_effect)
qed

theorem single_option_change_forwarded_once_witness:
  "\<exists>s. renders Extended (Some 0) [(''apiKey'', JStr ''k1''), (''onSelect'', JFn 1)] [] = Inr s
     \<and> log s = [New 0 [(''apiKey'', JStr ''k1'')], Set ''apiKey'' (JStr ''k1''),
                On ''select'' (Some (JFn 1))]
     \<and> log (rerender Extended s [(''apiKey'', JStr ''k2''), (''onSelect'', JFn 1)]) =
         [New 0 [(''apiKey'', JStr ''k1'')], Set ''apiKey'' (JStr ''k1''),
          On ''select'' (Some (JFn 1)), Set ''apiKey'' (JStr ''k2'')]"
proof -
  let ?s = "\<lparr>divRef = Some 0,
       controlRef = Some \<lparr>target = 0, listeners = [(0, ''select'', JFn 1)], fresh = 1,
                      destroyed = False\<rparr>,
       rendered = [(''apiKey'', JStr ''k1''), (''onSelect'', JFn 1)],
       destroy_cleanup = True,
       event_cleanups = [(''select'', 0)],
       log = [New 0 [(''apiKey'', JStr ''k1'')], Set ''apiKey'' (JStr ''k1''),
              On ''select'' (Some (JFn 1))]\<rparr>"
  have r: "renders Extended (Some 0) [(''apiKey'', JStr ''k1''), (''onSelect'', JFn 1)] [] =
      Inr ?s"
    by code_simp
  have "log (rerender Extended ?s [(''apiKey'', JStr ''k2''), (''onSelect'', JFn 1)]) =
      log ?s @ [Set ''apiKey''
        (get_prop [(''apiKey'', JStr ''k2''), (''onSelect'', JFn 1)] ''apiKey'')]"
    by (rule single_option_change_forwarded_once [OF r]) (simp_all add: get_prop_def)
  then show ?thesis
    using r by (simp add: get_prop_def)
qed

text \<open>
  Claim C5. For every option name and every commit, the first one included: when the
  value of the option in the props is \<^verbatim>\<open>undefined\<close>, the commit makes no \<^verbatim>\<open>$set\<close> call
  for that option, whatever the value before was.
\<close>

theorem undefined_option_never_forwarded:
  assumes "get_prop p name = Undefined"
  shows "updates_of name (log (rerender v s p)) = updates_of name (log s)
       \<and> (\<forall>s'. mount v node p = Inr s' \<longrightarrow> updates_of name (log s') = [])"
proof -
  obtain offs ons where l: "log (rerender v s p) = log s @ offs @ forwarded v s p @ ons"
      "list_all sub_call offs" "list_all sub_call ons"
    using rerender_log by blast
  have r: "updates_of name (log (rerender v s p)) = updates_of name (log s)"
    using l assms by (simp add: sub_calls_unobserved updates_of_forwarded)
  have "updates_of name (log s') = []" if m: "mount v node p = Inr s'" for s'
  proof -
    obtain n ons' where l': "list_all sub_call ons'"
       "log s' = New n (options p) #
          map (\<lambda>k. Set k (get_prop p k))
            (filter (\<lambda>k. get_prop p k \<noteq> Undefined) (propertyNames v)) @ ons'"
      using mount_log [OF m] by blast
    have "filter (\<lambda>n. n = name)
            (filter (\<lambda>k. get_prop p k \<noteq> Undefined) (propertyNames v)) = []"
      using assms by (auto simp: filter_empty_conv)
    then show ?thesis
      using l' by (simp add: sub_calls_unobserved updates_of_sets)
  qed
  with r show ?thesis by blast
qed

theorem undefined_option_never_forwarded_witness:
  "get_prop [(''apiKey'', JStr ''k1'')] ''zoom'' = Undefined
   \<and> (\<exists>s. renders Base (Some 0) [(''apiKey'', JStr ''k1''), (''zoom'', JNum 3)] [] = Inr s
        \<and> updates_of ''zoom'' (log s) = [Set ''zoom'' (JNum 3)]
        \<and> updates_of ''zoom'' (log (rerender Base s [(''apiKey'', JStr ''k1'')])) =
            [Set ''zoom'' (JNum 3)])
   \<and> (\<exists>s'. mount Base (Some 0) [(''apiKey'', JStr ''k1'')] = Inr s'
        \<and> updates_of ''zoom'' (log s') = [])"
proof -
  let ?s = "\<lparr>divRef = Some 0,
       controlRef = Some \<lparr>target = 0, listeners = [], fresh = 0, destroyed = False\<rparr>,
       rendered = [(''apiKey'', JStr ''k1''), (''zoom'', JNum 3)],
       destroy_cleanup = True,
       event_cleanups = [],
       log = [New 0 [(''apiKey'', JStr ''k1''), (''zoom'', JNum 3)],
              Set ''apiKey'' (JStr ''k1''), Set ''zoom'' (JNum 3),
              On ''featuresListed'' None, On ''featuresMarked'' None,
              On ''optionsVisibilityChange'' None, On ''pick'' None,
              On ''queryChange'' None, On ''response'' None,
              On ''reverseToggle'' None, On ''select'' None]\<rparr>"
  have u: "get_prop [(''apiKey'', JStr ''k1'')] ''zoom'' = Undefined"
    by (simp add: get_prop_def)
  have r: "renders Base (Some 0) [(''apiKey'', JStr ''k1''), (''zoom'', JNum 3)] [] = Inr ?s"
    by code_simp
  have z: "updates_of ''zoom'' (log ?s) = [Set ''zoom'' (JNum 3)]"
    by (simp add: updates_of_def)
  obtain s' where m: "mount Base (Some 0) [(''apiKey'', JStr ''k1'')] = Inr s'"
    using mount_Some by blast
  show ?thesis
    using u r z m undefined_option_never_forwarded [OF u, of Base ?s "Some 0"] by simp
qed

text \<open>
  Claim C10. At the first commit the effect of every option name runs too: an option
  whose value is not \<^verbatim>\<open>undefined\<close> reaches the wrapped instance twice, once in the
  property bag of the constructor and once through one \<^verbatim>\<open>$set\<close> call.
\<close>

theorem defined_options_delivered_twice_at_mount:
  assumes m: "mount v node p = Inr s"
    and name: "name \<in> set (propertyNames v)"
    and val: "get_prop p name \<noteq> Undefined"
  shows "updates_of name (log s) = [Set name (get_prop p name)]
       \<and> (\<exists>q. constructor_props (log s) = [q] \<and> get_prop q name = get_prop p name)"
proof -
  obtain n ons where l: "list_all sub_call ons"
     "log s = New n (options p) #
        map (\<lambda>k. Set k (get_prop p k))
          (filter (\<lambda>k. get_prop p k \<noteq> Undefined) (propertyNames v)) @ ons"
    using mount_log [OF m] by blast
  have "filter (\<lambda>n. n = name)
          (filter (\<lambda>k. get_prop p k \<noteq> Undefined) (propertyNames v)) = [name]"
    using name val distinct_propertyNames [of v]
    by (subst filter_eq_distinct) (auto simp: distinct_filter)
  then have u: "updates_of name (log s) = [Set name (get_prop p name)]"
    using l by (simp add: sub_calls_unobserved updates_of_sets)
  have "get_prop (options p) name = get_prop p name"
    using property_not_callback [OF name] by (simp add: get_prop_options)
  then show ?thesis
    using u mount_constructor_props [OF m] by simp
qed

theorem defined_options_delivered_twice_at_mount_witness:
  "\<exists>s. mount Extended (Some 0) [(''apiKey'', JStr ''k1''), (''onSelect'', JFn 1)] = Inr s
     \<and> updates_of ''apiKey'' (log s) = [Set ''apiKey'' (JStr ''k1'')]
     \<and> (\<exists>q. constructor_props (log s) = [q] \<and> get_prop q ''apiKey'' = JStr ''k1'')"
proof -
  obtain s where m: "mount Extended (Some 0)
      [(''apiKey'', JStr ''k1''), (''onSelect'', JFn 1)] = Inr s"
    using mount_Some by blast
  have n: "''apiKey'' \<in> set (propertyNames Extended)" by simp
  have v: "get_prop [(''apiKey'', JStr ''k1''), (''onSelect'', JFn 1)] ''apiKey'' \<noteq> Undefined"
    by (simp add: get_prop_def)
  show ?thesis
    using m defined_options_delivered_twice_at_mount [OF m n v] by (simp add: get_prop_def)
qed

subsection \<open>Subscriptions\<close>

text \<open>
  A later commit ends subscriptions before it asks for new ones: its calls are the
  unsubscriptions, then the updates, then the \<^verbatim>\<open>$on\<close> calls.
\<close>

lemma rerender_unsubscribes_first:
  "\<exists>offs ons. log (rerender v s p) = log s @ offs @ forwarded v s p @ ons
      \<and> list_all off_call offs \<and> list_all on_call ons"
proof -
  define es where "es = filter (\<lambda>e. changed (rendered s) p (getEventFnName e)) eventNames"
  define ns where "ns = filter (changed (rendered s) p) (propertyNames v)"
  define s1 where "s1 = fold run_cleanup es s"
  define s2 where "s2 = fold (prop_effect p) ns s1"
  have "\<exists>d. log (fold run_cleanup es s) = log s @ d \<and> list_all off_call d"
    by (rule fold_log_appends) (rule run_cleanup_offs)
  then obtain offs where offs: "log s1 = log s @ offs" "list_all off_call offs"
    unfolding s1_def by blast
  have c1: "(controlRef s1 = None) = (controlRef s = None)"
    by (simp add: s1_def)
  have l2: "log s2 = log s1 @ forwarded v s p"
    unfolding s2_def fold_prop_effect forwarded_def ns_def using c1 by simp
  have "\<exists>d. log (fold (event_effect v p) es s2) = log s2 @ d \<and> list_all on_call d"
    by (rule fold_log_appends) (rule event_effect_ons)
  then obtain ons where ons: "log (fold (event_effect v p) es s2) = log s2 @ ons"
      "list_all on_call ons"
    by blast
  have "rerender v s p = (fold (event_effect v p) es s2)\<lparr>rendered := p\<rparr>"
    by (simp add: rerender_def es_def ns_def s1_def s2_def Let_def)
  then have "log (rerender v s p) = log s @ offs @ forwarded v s p @ ons"
    using offs ons l2 by simp
  then show ?thesis using offs ons by blast
qed

text \<open>
  The extended variant keeps the subscriptions in step with the props: after any
  sequence of commits, an event name whose callback prop is truthy has exactly one
  listener, the trampoline around that callback, and an event name without a callback
  has none.
\<close>

lemma map_of_filter_other:
  "map_of (filter (\<lambda>x. fst x \<noteq> e) cl) e' = (if e' = e then None else map_of cl e')"
  by (induction cl) auto

lemma filter_id_single:
  assumes "distinct (map fst ls)" "filter (\<lambda>l. fst (snd l) = e) ls = [(i, e, h)]"
  shows "filter (\<lambda>l. fst l \<noteq> i \<and> fst (snd l) = e') ls =
         (if e' = e then [] else filter (\<lambda>l. fst (snd l) = e') ls)"
proof -
  have "(i, e, h) \<in> set (filter (\<lambda>l. fst (snd l) = e) ls)"
    using assms(2) by simp
  then have mem: "(i, e, h) \<in> set ls" by simp
  have uniq: "l = (i, e, h)" if "l \<in> set ls" "fst l = i" for l
  proof -
    have il: "(i, snd l) \<in> set ls" using that by (metis prod.collapse)
    have "snd l = (e, h)" by (rule eq_key_imp_eq_value [OF assms(1) il mem])
    then show ?thesis using that(2) by (metis prod.collapse)
  qed
  show ?thesis
  proof (cases "e' = e")
    case True
    have "filter (\<lambda>l. fst l \<noteq> i \<and> fst (snd l) = e) ls =
          filter (\<lambda>l. fst l \<noteq> i) (filter (\<lambda>l. fst (snd l) = e) ls)"
      by (simp add: conj_commute)
    then show ?thesis using True assms(2) by simp
  next
    case False
    have "filter (\<lambda>l. fst l \<noteq> i \<and> fst (snd l) = e') ls =
          filter (\<lambda>l. fst (snd l) = e') ls"
      by (rule filter_cong) (use uniq False in auto)
    then show ?thesis using False by simp
  qed
qed

lemma wired_run_cleanup:
  assumes "wired w s"
  shows "wired (w(e := Undefined)) (run_cleanup e s)"
proof -
  obtain c where c: "controlRef s = Some c" "ids_fresh c"
    and w: "\<And>e. if truthy (w e)
             then \<exists>i. map_of (event_cleanups s) e = Some i \<and>
                      filter (\<lambda>l. fst (snd l) = e) (listeners c) = [(i, e, w e)]
             else map_of (event_cleanups s) e = None \<and>
                  filter (\<lambda>l. fst (snd l) = e) (listeners c) = []"
    using assms unfolding wired_def by blast
  show ?thesis
  proof (cases "map_of (event_cleanups s) e")
    case None
    then have "\<not> truthy (w e)" using w [of e] by (auto split: if_splits)
    then have "filter (\<lambda>l. fst (snd l) = e) (listeners c) = []"
      using w [of e] by simp
    then show ?thesis
      unfolding wired_def using None c w
      by (auto simp: run_cleanup_def)
  next
    case (Some i)
    then have t: "truthy (w e)" using w [of e] by (auto split: if_splits)
    then have f: "filter (\<lambda>l. fst (snd l) = e) (listeners c) = [(i, e, w e)]"
      using w [of e] Some by auto
    have d: "distinct (map fst (listeners c))" using c(2) by (simp add: ids_fresh_def)
    have fr: "ids_fresh (off_event i c)"
      using c(2) by (auto simp: ids_fresh_def off_event_def distinct_map_filter)
    have r: "run_cleanup e s =
        s\<lparr>controlRef := Some (off_event i c),
          event_cleanups := filter (\<lambda>x. fst x \<noteq> e) (event_cleanups s),
          log := log s @ [Off i]\<rparr>"
      using Some c(1) by (simp add: run_cleanup_def)
    show ?thesis
      unfolding wired_def r using fr w
      by (auto simp: map_of_filter_other off_event_def filter_id_single [OF d f])
  qed
qed

lemma wired_event_effect:
  assumes "wired w s" "\<not> truthy (w e)"
  shows "wired (w(e := get_prop p (getEventFnName e))) (event_effect Extended p e s)"
proof -
  obtain c where c: "controlRef s = Some c" "ids_fresh c"
    and w: "\<And>e. if truthy (w e)
             then \<exists>i. map_of (event_cleanups s) e = Some i \<and>
                      filter (\<lambda>l. fst (snd l) = e) (listeners c) = [(i, e, w e)]
             else map_of (event_cleanups s) e = None \<and>
                  filter (\<lambda>l. fst (snd l) = e) (listeners c) = []"
    using assms(1) unfolding wired_def by blast
  have clean: "map_of (event_cleanups s) e = None"
      "filter (\<lambda>l. fst (snd l) = e) (listeners c) = []"
    using w [of e] assms(2) by simp_all
  let ?h = "get_prop p (getEventFnName e)"
  show ?thesis
  proof (cases "truthy ?h")
    case False
    then have "event_effect Extended p e s = s" by (simp add: event_effect.simps Let_def)
    then show ?thesis
      unfolding wired_def using c w clean False by auto
  next
    case True
    let ?c = "c\<lparr>listeners := listeners c @ [(fresh c, e, ?h)], fresh := Suc (fresh c)\<rparr>"
    have r: "event_effect Extended p e s =
        s\<lparr>controlRef := Some ?c,
          event_cleanups := event_cleanups s @ [(e, fresh c)],
          log := log s @ [On e (Some ?h)]\<rparr>"
      using True c(1) by (simp add: event_effect.simps Let_def on_event_def)
    have fr: "ids_fresh ?c"
      using c(2) by (auto simp: ids_fresh_def less_Suc_eq)
    have m: "map_of (event_cleanups s @ [(e, fresh c)]) e' =
        (if e' = e then Some (fresh c) else map_of (event_cleanups s) e')" for e'
      using clean(1) by (auto simp: map_add_def split: option.splits)
    show ?thesis
      unfolding wired_def r using fr w clean True
      by (auto simp: m simp del: map_of_append)
  qed
qed

lemma wired_log [simp]: "wired w (s\<lparr>log := l\<rparr>) = wired w s"
  by (simp add: wired_def)

lemma wired_rendered [simp]: "wired w (s\<lparr>rendered := p\<rparr>) = wired w s"
  by (simp add: wired_def)

lemma wired_fold_run_cleanup:
  "wired w s \<Longrightarrow> wired (\<lambda>x. if x \<in> set es then Undefined else w x) (fold run_cleanup es s)"
proof (induction es arbitrary: w s)
  case Nil
  then show ?case by simp
next
  case (Cons e es)
  have "wired (\<lambda>x. if x \<in> set es then Undefined else (w(e := Undefined)) x)
          (fold run_cleanup es (run_cleanup e s))"
    by (rule Cons.IH) (rule wired_run_cleanup [OF Cons.prems])
  moreover have "(\<lambda>x. if x \<in> set es then Undefined else (w(e := Undefined)) x) =
      (\<lambda>x. if x \<in> set (e # es) then Undefined else w x)"
    by (rule ext) simp
  ultimately show ?case by simp
qed

lemma wired_fold_event_effect:
  "wired w s \<Longrightarrow> distinct es \<Longrightarrow> (\<And>e. e \<in> set es \<Longrightarrow> \<not> truthy (w e)) \<Longrightarrow>
     wired (\<lambda>x. if x \<in> set es then get_prop p (getEventFnName x) else w x)
       (fold (event_effect Extended p) es s)"
proof (induction es arbitrary: w s)
  case Nil
  then show ?case by simp
next
  case (Cons e es)
  let ?w = "w(e := get_prop p (getEventFnName e))"
  have 1: "wired ?w (event_effect Extended p e s)"
    by (rule wired_event_effect [OF Cons.prems(1)]) (simp add: Cons.prems(3))
  have 2: "distinct es" and 3: "e \<notin> set es" using Cons.prems(2) by simp_all
  have 4: "\<not> truthy (?w x)" if "x \<in> set es" for x
    using that 3 Cons.prems(3) by auto
  have "wired (\<lambda>x. if x \<in> set es then get_prop p (getEventFnName x) else ?w x)
          (fold (event_effect Extended p) es (event_effect Extended p e s))"
    using Cons.IH [OF 1 2 4] by simp
  moreover have "(\<lambda>x. if x \<in> set es then get_prop p (getEventFnName x) else ?w x) =
      (\<lambda>x. if x \<in> set (e # es) then get_prop p (getEventFnName x) else w x)"
    by (rule ext) simp
  ultimately show ?case by simp
qed

lemma distinct_eventNames: "distinct eventNames"
  by (simp add: eventNames_def)

lemma wired_rerender:
  assumes "wired (wiring (rendered s)) s"
  shows "wired (wiring p) (rerender Extended s p)"
proof -
  define es where "es = filter (\<lambda>e. changed (rendered s) p (getEventFnName e)) eventNames"
  define ns where "ns = filter (changed (rendered s) p) (propertyNames Extended)"
  define w1 where "w1 = (\<lambda>x. if x \<in> set es then Undefined else wiring (rendered s) x)"
  have d: "distinct es" by (simp add: es_def distinct_eventNames)
  have 1: "wired w1 (fold run_cleanup es s)"
    unfolding w1_def by (rule wired_fold_run_cleanup [OF assms])
  have 2: "wired w1 (fold (prop_effect p) ns (fold run_cleanup es s))"
    using 1 by (simp add: fold_prop_effect)
  have 3: "\<not> truthy (w1 e)" if "e \<in> set es" for e
    using that by (simp add: w1_def)
  have 4: "wired (\<lambda>x. if x \<in> set es then get_prop p (getEventFnName x) else w1 x)
      (fold (event_effect Extended p) es (fold (prop_effect p) ns (fold run_cleanup es s)))"
    by (rule wired_fold_event_effect [OF 2 d 3])
  have "(\<lambda>x. if x \<in> set es then get_prop p (getEventFnName x) else w1 x) = wiring p"
    by (rule ext) (auto simp: w1_def wiring_def es_def changed_def)
  then show ?thesis
    using 4 by (simp add: rerender_def Let_def es_def ns_def)
qed

lemma wired_foldl_rerender:
  "wired (wiring (rendered s)) s \<Longrightarrow>
     wired (wiring (rendered (foldl (rerender Extended) s ps))) (foldl (rerender Extended) s ps)"
proof (induction ps arbitrary: s)
  case Nil
  then show ?case by simp
next
  case (Cons p ps)
  have "wired (wiring (rendered (rerender Extended s p))) (rerender Extended s p)"
    using wired_rerender [OF Cons.prems, of p] by simp
  then show ?case using Cons.IH by simp
qed

lemma wired_mount:
  assumes "mount Extended node p = Inr s"
  shows "wired (wiring (rendered s)) s"
proof -
  obtain n where n: "node = Some n"
    "s = fold (event_effect Extended p) eventNames
             (fold (prop_effect p) (propertyNames Extended)
                ((initial node p)\<lparr>controlRef := Some (new_control n), destroy_cleanup := True,
                   log := [New n (options p)]\<rparr>))"
    using mount_Inr [OF assms] by blast
  let ?s0 = "(initial node p)\<lparr>controlRef := Some (new_control n), destroy_cleanup := True,
                   log := [New n (options p)]\<rparr>"
  have 0: "wired (\<lambda>x. Undefined) ?s0"
    by (simp add: wired_def initial_def new_control_def ids_fresh_def)
  have 1: "wired (\<lambda>x. Undefined) (fold (prop_effect p) (propertyNames Extended) ?s0)"
    using 0 by (subst fold_prop_effect) simp
  have "wired (\<lambda>x. if x \<in> set eventNames then get_prop p (getEventFnName x) else Undefined) s"
    unfolding n(2) by (rule wired_fold_event_effect [OF 1 distinct_eventNames]) simp
  moreover have "(\<lambda>x. if x \<in> set eventNames then get_prop p (getEventFnName x) else Undefined)
      = wiring (rendered s)"
    using mount_fields(3) [OF assms] by (auto simp: wiring_def)
  ultimately show ?thesis by simp
qed

lemma foldl_rerender_rendered:
  "rendered (foldl (rerender v) s ps) = last (rendered s # ps)"
  by (induction ps arbitrary: s) simp_all

lemma extended_variant_one_subscription:
  assumes r: "renders Extended node p0 ps = Inr s" and e: "e \<in> set eventNames"
  shows "rendered s = last (p0 # ps)"
    and "truthy (get_prop (rendered s) (getEventFnName e)) \<Longrightarrow>
           \<exists>i. subscriptions e s = [(i, e, get_prop (rendered s) (getEventFnName e))]"
    and "\<not> truthy (get_prop (rendered s) (getEventFnName e)) \<Longrightarrow> subscriptions e s = []"
proof -
  obtain s0 where s0: "mount Extended node p0 = Inr s0" "s = foldl (rerender Extended) s0 ps"
    using renders_Inr [OF r] by blast
  show "rendered s = last (p0 # ps)"
    using mount_fields(3) [OF s0(1)] s0(2) by (simp add: foldl_rerender_rendered)
  have "wired (wiring (rendered s)) s"
    unfolding s0(2) by (rule wired_foldl_rerender) (rule wired_mount [OF s0(1)])
  then obtain c where c: "controlRef s = Some c"
    and w: "if truthy (wiring (rendered s) e)
            then \<exists>i. map_of (event_cleanups s) e = Some i \<and>
                     filter (\<lambda>l. fst (snd l) = e) (listeners c) =
                       [(i, e, wiring (rendered s) e)]
            else map_of (event_cleanups s) e = None \<and>
                 filter (\<lambda>l. fst (snd l) = e) (listeners c) = []"
    unfolding wired_def by blast
  have we: "wiring (rendered s) e = get_prop (rendered s) (getEventFnName e)"
    using e by (simp add: wiring_def)
  show "\<exists>i. subscriptions e s = [(i, e, get_prop (rendered s) (getEventFnName e))]"
    if "truthy (get_prop (rendered s) (getEventFnName e))"
    using w that c by (auto simp: we subscriptions_def)
  show "subscriptions e s = []"
    if "\<not> truthy (get_prop (rendered s) (getEventFnName e))"
    using w that c by (simp add: we subscriptions_def)
qed

text \<open>
  Claim C2. For every enumerated event name: while a callback prop is given there is
  exactly one subscription to the event; when the callback is replaced the old
  subscription is ended before the new one is made; when the callback prop goes away no
  subscription is left and none is made.

  The extended variant does this (\<open>extended_variant_one_subscription\<close>,
  \<open>rerender_unsubscribes_first\<close>). The base variant does not: its effect returns nothing,
  so React has no cleanup to run and every listener stays. Mounted with \<^verbatim>\<open>onSelect: cb1\<close>,
  the base variant holds two listeners for \<^verbatim>\<open>select\<close> after \<^verbatim>\<open>onSelect\<close> is replaced by
  \<^verbatim>\<open>cb2\<close>, and still one after \<^verbatim>\<open>onSelect\<close> is removed; the extended variant holds one
  and none.
\<close>

theorem base_variant_never_unsubscribes:
  "map_sum id (subscriptions ''select'')
     (renders Base (Some 0) [(''onSelect'', JFn 1)] [[(''onSelect'', JFn 2)]]) =
     Inr [(0, ''select'', JFn 1), (1, ''select'', JFn 2)]
   \<and> map_sum id (subscriptions ''select'')
     (renders Base (Some 0) [(''onSelect'', JFn 1)] [[]]) =
     Inr [(0, ''select'', JFn 1)]
   \<and> map_sum id (subscriptions ''select'')
     (renders Extended (Some 0) [(''onSelect'', JFn 1)] [[(''onSelect'', JFn 2)]]) =
     Inr [(1, ''select'', JFn 2)]
   \<and> map_sum id (subscriptions ''select'')
     (renders Extended (Some 0) [(''onSelect'', JFn 1)] [[]]) =
     Inr []"
  by code_simp

subsection \<open>Construction\<close>

text \<open>
  Claim C4. For every props bag of the first commit, the constructor of the wrapped
  instance is called once, and its property bag is the props bag without the keys
  \<^verbatim>\<open>on\<close> + capitalised event name of the enumerated event names; every other entry is
  kept as it is.
\<close>

theorem constructor_gets_props_without_callbacks:
  assumes "mount v node p = Inr s"
  shows "constructor_props (log s) =
           [filter (\<lambda>kv. fst kv \<notin> set (map getEventFnName eventNames)) p]"
  using mount_constructor_props [OF assms] by (simp add: options_filter)

theorem constructor_gets_props_without_callbacks_witness:
  "\<exists>s. mount Extended (Some 0)
          [(''apiKey'', JStr ''k1''), (''onSelect'', JFn 1), (''zoom'', JNum 3)] = Inr s
     \<and> constructor_props (log s) = [[(''apiKey'', JStr ''k1''), (''zoom'', JNum 3)]]"
proof -
  obtain s where m: "mount Extended (Some 0)
      [(''apiKey'', JStr ''k1''), (''onSelect'', JFn 1), (''zoom'', JNum 3)] = Inr s"
    using mount_Some by blast
  have "filter (\<lambda>kv. fst kv \<notin> set (map getEventFnName eventNames))
          [(''apiKey'', JStr ''k1''), (''onSelect'', JFn 1), (''zoom'', JNum 3)] =
        [(''apiKey'', JStr ''k1''), (''zoom'', JNum 3)]"
    by code_simp
  then show ?thesis
    using m constructor_gets_props_without_callbacks [OF m] by simp
qed

text \<open>
  Claim C6. The first commit fails exactly when there is no host node: the mount effect
  throws before it constructs anything, and the exception is the result of the commit.
  With a host node the first commit succeeds. The later commits, the unmount and the
  methods of the handle have no error branch in the source and are total here.
\<close>

theorem mount_fails_without_host_node:
  "mount v None p = Inl HostNodeMissing
   \<and> (\<exists>s. mount v (Some n) p = Inr s)
   \<and> ((\<exists>e. mount v node p = Inl e) = (node = None))"
  by (cases node) (simp_all add: mount_def mount_effect_def initial_def)

subsection \<open>Lifecycle of the wrapped instance\<close>

text \<open>
  Claim C3. In every lifecycle of the component (a first commit that succeeds, any number
  of later commits, the unmount) the wrapped instance is constructed exactly once, at the
  first commit, and destroyed exactly once, at the unmount; the commits in between
  construct and destroy nothing, and no prefix of the log holds more than one
  construction.
\<close>

theorem one_instance_per_lifecycle:
  assumes "renders v node p0 ps = Inr s"
  shows "constructions (log s) = 1
       \<and> destructions (log s) = 0
       \<and> constructions (log (unmount s)) = 1
       \<and> destructions (log (unmount s)) = 1
       \<and> (\<forall>k. constructions (take k (log (unmount s))) \<le> 1)"
proof -
  obtain s0 where s0: "mount v node p0 = Inr s0" "s = foldl (rerender v) s0 ps"
    using renders_Inr [OF assms] by blast
  have c: "constructions (log s) = 1" and d: "destructions (log s) = 0"
    unfolding s0(2) by (simp_all add: foldl_rerender_counts mount_counts [OF s0(1)])
  have dc: "destroy_cleanup s" using renders_fields(2) [OF assms] .
  have cu: "constructions (log (unmount s)) = 1" using c by (simp add: unmount_counts)
  have du: "destructions (log (unmount s)) = 1" using d dc by (simp add: unmount_counts)
  have "constructions (take k (log (unmount s))) \<le> 1" for k
    using constructions_take [of k "log (unmount s)"] cu by simp
  with c d cu du show ?thesis by blast
qed

theorem one_instance_per_lifecycle_witness:
  "\<exists>s. renders Extended (Some 0) [(''apiKey'', JStr ''k1''), (''onSelect'', JFn 1)]
          [[(''apiKey'', JStr ''k2''), (''onSelect'', JFn 1)],
           [(''apiKey'', JStr ''k2''), (''onSelect'', JFn 2)]] = Inr s
     \<and> log s = [New 0 [(''apiKey'', JStr ''k1'')], Set ''apiKey'' (JStr ''k1''),
                On ''select'' (Some (JFn 1)), Set ''apiKey'' (JStr ''k2''), Off 0,
                On ''select'' (Some (JFn 2))]
     \<and> constructions (log s) = 1 \<and> destructions (log s) = 0
     \<and> constructions (log (unmount s)) = 1 \<and> destructions (log (unmount s)) = 1"
proof -
  let ?s = "\<lparr>divRef = Some 0,
       controlRef = Some \<lparr>target = 0, listeners = [(1, ''select'', JFn 2)], fresh = 2,
                      destroyed = False\<rparr>,
       rendered = [(''apiKey'', JStr ''k2''), (''onSelect'', JFn 2)],
       destroy_cleanup = True,
       event_cleanups = [(''select'', 1)],
       log = [New 0 [(''apiKey'', JStr ''k1'')], Set ''apiKey'' (JStr ''k1''),
              On ''select'' (Some (JFn 1)), Set ''apiKey'' (JStr ''k2''), Off 0,
              On ''select'' (Some (JFn 2))]\<rparr>"
  have r: "renders Extended (Some 0) [(''apiKey'', JStr ''k1''), (''onSelect'', JFn 1)]
          [[(''apiKey'', JStr ''k2''), (''onSelect'', JFn 1)],
           [(''apiKey'', JStr ''k2''), (''onSelect'', JFn 2)]] = Inr ?s"
    by code_simp
  show ?thesis
    using r one_instance_per_lifecycle [OF r] by simp
qed

subsection \<open>Callback names\<close>

text \<open>
  Claim C9. For every enumerated event name, the callback property the component looks
  up is \<^verbatim>\<open>on\<close> followed by the event name with its first letter in upper case and the
  rest as it is.
\<close>

theorem callback_property_names:
  "map (\<lambda>eventName. (eventName, getEventFnName eventName)) eventNames =
     [(''featuresListed'', ''onFeaturesListed''),
      (''featuresMarked'', ''onFeaturesMarked''),
      (''optionsVisibilityChange'', ''onOptionsVisibilityChange''),
      (''pick'', ''onPick''),
      (''queryChange'', ''onQueryChange''),
      (''response'', ''onResponse''),
      (''reverseToggle'', ''onReverseToggle''),
      (''select'', ''onSelect'')]"
  by code_simp

subsection \<open>The methods of the handle\<close>

text \<open>
  Claim C7. Every method the handle of a variant has (\<^verbatim>\<open>focus\<close>, \<^verbatim>\<open>blur\<close>, \<^verbatim>\<open>setQuery\<close>,
  and in the extended variant \<^verbatim>\<open>clearMap\<close> and \<^verbatim>\<open>clearList\<close>) returns without an error
  and without any effect while the wrapped instance does not exist yet. Once it exists,
  the call is passed on to the method of the same name of the wrapped instance, with the
  arguments of the caller: \<^verbatim>\<open>setQuery(value, submit)\<close> arrives as \<^verbatim>\<open>setQuery(value, submit)\<close>,
  \<^verbatim>\<open>focus()\<close> as \<^verbatim>\<open>focus()\<close>, \<^verbatim>\<open>blur()\<close> as \<^verbatim>\<open>blur()\<close>, and in the extended variant
  \<^verbatim>\<open>clearMap()\<close> as \<^verbatim>\<open>clearMap()\<close> and \<^verbatim>\<open>clearList()\<close> as \<^verbatim>\<open>clearList()\<close>; each call
  adds exactly that one call to the log and changes nothing else.
\<close>

theorem imperative_methods_delegate_or_drop:
  assumes "request_name r \<in> set (handle_keys v)"
  shows "(controlRef s = None \<longrightarrow> invoke v s r = Some s)
       \<and> (controlRef s \<noteq> None \<longrightarrow>
            invoke v s r = Some (s\<lparr>log := log s @ [delegate r]\<rparr>)
            \<and> call_name (delegate r) = request_name r
            \<and> invoke v s (CallSetQuery value (Some submit)) =
                Some (s\<lparr>log := log s @ [SetQuery value submit]\<rparr>)
            \<and> invoke v s (CallSetQuery value None) =
                Some (s\<lparr>log := log s @ [SetQuery value True]\<rparr>)
            \<and> invoke v s CallFocus = Some (s\<lparr>log := log s @ [Focus]\<rparr>)
            \<and> invoke v s CallBlur = Some (s\<lparr>log := log s @ [Blur]\<rparr>)
            \<and> (v = Extended \<longrightarrow>
                 invoke v s CallClearMap = Some (s\<lparr>log := log s @ [ClearMap]\<rparr>)
                 \<and> invoke v s CallClearList = Some (s\<lparr>log := log s @ [ClearList]\<rparr>)))"
proof -
  have none: "invoke v s r = Some s" if "controlRef s = None"
    using assms that by (simp add: invoke_def)
  have some: "invoke v s r = Some (s\<lparr>log := log s @ [delegate r]\<rparr>)"
      "call_name (delegate r) = request_name r"
      "invoke v s (CallSetQuery value (Some submit)) =
         Some (s\<lparr>log := log s @ [SetQuery value submit]\<rparr>)"
      "invoke v s (CallSetQuery value None) =
         Some (s\<lparr>log := log s @ [SetQuery value True]\<rparr>)"
      "invoke v s CallFocus = Some (s\<lparr>log := log s @ [Focus]\<rparr>)"
      "invoke v s CallBlur = Some (s\<lparr>log := log s @ [Blur]\<rparr>)"
    if ex: "controlRef s \<noteq> None"
  proof -
    obtain c where c: "controlRef s = Some c" using ex by blast
    show "invoke v s r = Some (s\<lparr>log := log s @ [delegate r]\<rparr>)"
      using assms c by (simp add: invoke_def)
    show "call_name (delegate r) = request_name r"
      by (cases r) simp_all
    show "invoke v s (CallSetQuery value (Some submit)) =
         Some (s\<lparr>log := log s @ [SetQuery value submit]\<rparr>)"
      using c by (cases v) (simp_all add: invoke_def)
    show "invoke v s (CallSetQuery value None) =
         Some (s\<lparr>log := log s @ [SetQuery value True]\<rparr>)"
      using c by (cases v) (simp_all add: invoke_def)
    show "invoke v s CallFocus = Some (s\<lparr>log := log s @ [Focus]\<rparr>)"
      using c by (cases v) (simp_all add: invoke_def)
    show "invoke v s CallBlur = Some (s\<lparr>log := log s @ [Blur]\<rparr>)"
      using c by (cases v) (simp_all add: invoke_def)
  qed
  have ext: "invoke v s CallClearMap = Some (s\<lparr>log := log s @ [ClearMap]\<rparr>)"
      "invoke v s CallClearList = Some (s\<lparr>log := log s @ [ClearList]\<rparr>)"
    if ex: "controlRef s \<noteq> None" and v: "v = Extended"
  proof -
    obtain c where c: "controlRef s = Some c" using ex by blast
    show "invoke v s CallClearMap = Some (s\<lparr>log := log s @ [ClearMap]\<rparr>)"
      using c v by (simp add: invoke_def)
    show "invoke v s CallClearList = Some (s\<lparr>log := log s @ [ClearList]\<rparr>)"
      using c v by (simp add: invoke_def)
  qed
  show ?thesis
    using none some ext by blast
qed

theorem imperative_methods_delegate_or_drop_witness:
  "request_name CallFocus \<in> set (handle_keys Base)
   \<and> controlRef (initial (Some 0) []) = None
   \<and> invoke Base (initial (Some 0) []) CallFocus = Some (initial (Some 0) [])
   \<and> request_name CallClearMap \<in> set (handle_keys Extended)
   \<and> (\<exists>s. mount Extended (Some 0) [] = Inr s
        \<and> controlRef s \<noteq> None
        \<and> log s = [New 0 []]
        \<and> invoke Extended s CallClearMap = Some (s\<lparr>log := [New 0 [], ClearMap]\<rparr>)
        \<and> invoke Extended s CallClearList = Some (s\<lparr>log := [New 0 [], ClearList]\<rparr>)
        \<and> invoke Extended s (CallSetQuery ''Paris'' (Some False)) =
            Some (s\<lparr>log := [New 0 [], SetQuery ''Paris'' False]\<rparr>)
        \<and> invoke Extended s (CallSetQuery ''Paris'' None) =
            Some (s\<lparr>log := [New 0 [], SetQuery ''Paris'' True]\<rparr>)
        \<and> invoke Extended s CallFocus = Some (s\<lparr>log := [New 0 [], Focus]\<rparr>)
        \<and> invoke Extended s CallBlur = Some (s\<lparr>log := [New 0 [], Blur]\<rparr>))"
proof -
  let ?s = "\<lparr>divRef = Some 0,
       controlRef = Some \<lparr>target = 0, listeners = [], fresh = 0, destroyed = False\<rparr>,
       rendered = [], destroy_cleanup = True, event_cleanups = [],
       log = [New 0 []]\<rparr>"
  have h: "request_name CallFocus \<in> set (handle_keys Base)" by simp
  have c: "controlRef (initial (Some 0) []) = None" by (simp add: initial_def)
  have h': "request_name CallClearMap \<in> set (handle_keys Extended)" by simp
  have m: "mount Extended (Some 0) [] = Inr ?s" by code_simp
  show ?thesis
    using h c h' m
      imperative_methods_delegate_or_drop [OF h, of "initial (Some 0) []"]
      imperative_methods_delegate_or_drop [OF h', of ?s "''Paris''" False]
    by simp
qed

text \<open>
  Claim C8. \<^verbatim>\<open>setQuery(value)\<close> without its second argument is passed on as
  \<^verbatim>\<open>setQuery(value, true)\<close>. The handle has the methods \<^verbatim>\<open>focus\<close>, \<^verbatim>\<open>blur\<close> and
  \<^verbatim>\<open>setQuery\<close>, in the extended variant also \<^verbatim>\<open>clearMap\<close> and \<^verbatim>\<open>clearList\<close>, and no other.
\<close>

theorem setQuery_submit_defaults_to_true:
  "invoke v s (CallSetQuery value None) =
     Some (case controlRef s of
             None \<Rightarrow> s
           | Some c \<Rightarrow> s\<lparr>log := log s @ [SetQuery value True]\<rparr>)
   \<and> invoke v s (CallSetQuery value None) = invoke v s (CallSetQuery value (Some True))
   \<and> ((\<exists>s'. invoke v s r = Some s') =
        (request_name r \<in> {''focus'', ''blur'', ''setQuery''}
         \<or> v = Extended \<and> request_name r \<in> {''clearMap'', ''clearList''}))"
  by (cases v; cases r) (simp_all add: invoke_def split: option.splits)

end
